theory Spec2Isabelle
  imports Main "HOL-Library.Multiset"
begin

section \<open>Python sequence primitives used by nextorf.py\<close>

text \<open>
  A slice bound of Python: a negative bound counts from the end, and every bound is
  clamped to the range \<open>0 .. len\<close>. Slicing never raises.
\<close>

definition py_bound :: "nat \<Rightarrow> int \<Rightarrow> nat" where
  "py_bound n i = (if i < 0 then nat (i + int n) else min (nat i) n)"

text \<open>\<^verbatim>\<open>xs[a:b]\<close>\<close>

definition py_slice :: "'a list \<Rightarrow> int \<Rightarrow> int \<Rightarrow> 'a list" where
  "py_slice xs a b =
     (let lo = py_bound (length xs) a; hi = py_bound (length xs) b
      in take (hi - lo) (drop lo xs))"

text \<open>\<^verbatim>\<open>xs[a:]\<close>\<close>

definition py_slice_from :: "'a list \<Rightarrow> int \<Rightarrow> 'a list" where
  "py_slice_from xs a = drop (py_bound (length xs) a) xs"

text \<open>\<^verbatim>\<open>range(a, b, 3)\<close> for non-negative \<open>a\<close> and \<open>b\<close>: \<open>a, a + 3, ...\<close> below \<open>b\<close>.\<close>

definition py_range3 :: "nat \<Rightarrow> nat \<Rightarrow> nat list" where
  "py_range3 a b = map (\<lambda>k. a + 3 * k) [0 ..< (b - a + 2) div 3]"

section \<open>The program state\<close>

text \<open>
  The fields of a \<^verbatim>\<open>NextOrf\<close> object that the scanner and the assembler read:
  \<open>nostart\<close> is the test \<^verbatim>\<open>so["nostart"] == "1"\<close>, \<open>minlength\<close> and \<open>maxlength\<close> are
  \<^verbatim>\<open>int(so["minlength"])\<close> and \<^verbatim>\<open>int(so["maxlength"])\<close>, the codon lists are those of
  \<^verbatim>\<open>self.table\<close>, and \<open>seq_length\<close> is \<^verbatim>\<open>self.length\<close>.
\<close>

record nextorf =
  nostart :: bool
  minlength :: int
  maxlength :: int
  start_codons :: "string list"
  stop_codons :: "string list"
  seq_length :: int

text \<open>A boundary is the tuple \<^verbatim>\<open>(pos, codon_type, codon)\<close>.\<close>

type_synonym boundary = "int \<times> int \<times> string"

definition START :: int where "START = 1"
definition STOP :: int where "STOP = 0"

text \<open>A CDS is the tuple \<^verbatim>\<open>(start_site, stop, length, s, strand * f)\<close>.\<close>

datatype cds = CDS (cds_start: int) (cds_stop: int) (cds_length: int) (cds_seq: string) (cds_tag: int)

section \<open>ReadFile: the window of the record that is scanned\<close>

text \<open>
  For the upper-cased sequence \<open>s\<close> of a record: \<^verbatim>\<open>s = s[start:stop]\<close> if \<^verbatim>\<open>stop > 0\<close>, else
  \<^verbatim>\<open>s = s[start:]\<close>; then \<^verbatim>\<open>self.length = len(self.seq)\<close>. GetCDS is called on this window
  and on its reverse complement, which has the same length, so a call
  \<^verbatim>\<open>self.GetCDS(seq, strand)\<close> is \<open>GetCDS (ReadFile_self self seq) seq strand\<close>.
\<close>

definition ReadFile_window :: "int \<Rightarrow> int \<Rightarrow> string \<Rightarrow> string" where
  "ReadFile_window start stop s = (if stop > 0 then py_slice s start stop else py_slice_from s start)"

definition ReadFile_self :: "nextorf \<Rightarrow> string \<Rightarrow> nextorf" where
  "ReadFile_self self s = self\<lparr>seq_length := int (length s)\<rparr>"

section \<open>GetOrfCoordinates\<close>

text \<open>The indices of the inner loop: \<^verbatim>\<open>range(0 + frame, n - n % 3, 3)\<close>.\<close>

definition scan_indices :: "nat \<Rightarrow> nat \<Rightarrow> nat list" where
  "scan_indices n frame = py_range3 (0 + frame) (n - n mod 3)"

text \<open>
  The body of the inner loop at index \<open>i\<close>: the slice \<^verbatim>\<open>seq[i : i + 3]\<close> (of a non-negative
  \<open>i\<close>) and the boundary it appends, if any.
\<close>

definition classify :: "nextorf \<Rightarrow> string \<Rightarrow> nat \<Rightarrow> boundary list" where
  "classify self seq i =
     (let codon = take 3 (drop i seq)
      in if codon \<in> set (start_codons self) then [(int i + 1, 1, codon)]
         else if codon \<in> set (stop_codons self) then [(int i + 1, 0, codon)]
         else [])"

definition frame_scan :: "nextorf \<Rightarrow> string \<Rightarrow> nat \<Rightarrow> boundary list" where
  "frame_scan self seq frame = concat (map (classify self seq) (scan_indices (length seq) frame))"

definition GetOrfCoordinates :: "nextorf \<Rightarrow> string \<Rightarrow> boundary list list" where
  "GetOrfCoordinates self seq = map (frame_scan self seq) [0, 1, 2]"

section \<open>GetCDS\<close>

text \<open>
  One iteration of the loop over the boundaries of a frame: from \<open>start_site\<close> and a boundary
  to the new \<open>start_site\<close> and the records appended to \<^verbatim>\<open>CDS\<close> (none or one). The source's
  \<^verbatim>\<open>elif length < minlength or length > maxlength\<close> is the complement of the test before
  it, hence the plain \<open>else\<close>.
\<close>

fun cds_step :: "nextorf \<Rightarrow> string \<Rightarrow> int \<Rightarrow> int \<Rightarrow> int \<Rightarrow> boundary \<Rightarrow> int \<times> cds list" where
  "cds_step self seq strand f start_site (pos, codon_type, codon) =
     (if codon_type = START then
        (if start_site = 0 then (pos, []) else (start_site, []))
      else if codon_type = STOP then
        (if start_site = 0 then (start_site, [])
         else
           let stop = pos + 2;
               len = stop - start_site + 1
           in if len \<ge> minlength self \<and> len \<le> maxlength self then
                let start_site = (if nostart self \<and> start_site = 1 then start_site + f - 1 else start_site);
                    stop = (if codon = ''XXX'' then start_site + 3 * (((stop - 1) - start_site) div 3) else stop);
                    s = py_slice seq (start_site - 1) stop
                in (if nostart self then stop + 1 else 0, [CDS start_site stop len s (strand * f)])
              else (if nostart self then stop + 1 else 0, []))
      else (start_site, []))"

declare cds_step.simps [simp del]

text \<open>The loop \<^verbatim>\<open>for pos, codon_type, codon in frame\<close>, returning what it appends to \<^verbatim>\<open>CDS\<close>.\<close>

fun frame_loop :: "nextorf \<Rightarrow> string \<Rightarrow> int \<Rightarrow> int \<Rightarrow> int \<Rightarrow> boundary list \<Rightarrow> cds list" where
  "frame_loop self seq strand f start_site [] = []"
| "frame_loop self seq strand f start_site (b # bs) =
     (case cds_step self seq strand f start_site b of
        (start_site', out) \<Rightarrow> out @ frame_loop self seq strand f start_site' bs)"

text \<open>The sentinel appended to every frame, and the value \<open>start_site\<close> starts a frame with.\<close>

definition sentinel :: "nextorf \<Rightarrow> boundary" where
  "sentinel self = (seq_length self, 0, ''XXX'')"

definition initial_start_site :: "nextorf \<Rightarrow> int" where
  "initial_start_site self = (if nostart self then 1 else 0)"

text \<open>The loop \<^verbatim>\<open>for frame in frame_coordinates\<close>, with the counter \<open>f\<close>.\<close>

fun frames_loop :: "nextorf \<Rightarrow> string \<Rightarrow> int \<Rightarrow> int \<Rightarrow> boundary list list \<Rightarrow> cds list" where
  "frames_loop self seq strand f [] = []"
| "frames_loop self seq strand f (frame # rest) =
     (let f = f + 1;
          start_site = initial_start_site self;
          frame = frame @ [sentinel self]
      in frame_loop self seq strand f start_site frame @ frames_loop self seq strand f rest)"

definition GetCDS :: "nextorf \<Rightarrow> string \<Rightarrow> int \<Rightarrow> cds list" where
  "GetCDS self seq strand = frames_loop self seq strand 0 (GetOrfCoordinates self seq)"

text \<open>
  The boundary list the assembler walks for the frame with offset \<open>frame\<close> (counter
  \<open>f = frame + 1\<close>), and the records of that frame.
\<close>

definition frame_boundaries :: "nextorf \<Rightarrow> string \<Rightarrow> nat \<Rightarrow> boundary list" where
  "frame_boundaries self seq frame = frame_scan self seq frame @ [sentinel self]"

definition frame_cds :: "nextorf \<Rightarrow> string \<Rightarrow> int \<Rightarrow> nat \<Rightarrow> cds list" where
  "frame_cds self seq strand frame =
     frame_loop self seq strand (int frame + 1) (initial_start_site self) (frame_boundaries self seq frame)"

text \<open>
  The same loop, keeping with every record the codon text of the boundary that closed it.
\<close>

fun frame_trace :: "nextorf \<Rightarrow> string \<Rightarrow> int \<Rightarrow> int \<Rightarrow> int \<Rightarrow> boundary list \<Rightarrow> (string \<times> cds) list" where
  "frame_trace self seq strand f start_site [] = []"
| "frame_trace self seq strand f start_site (b # bs) =
     (case cds_step self seq strand f start_site b of
        (start_site', out) \<Rightarrow>
          map (\<lambda>r. (snd (snd b), r)) out @ frame_trace self seq strand f start_site' bs)"

definition frame_cds_trace :: "nextorf \<Rightarrow> string \<Rightarrow> int \<Rightarrow> nat \<Rightarrow> (string \<times> cds) list" where
  "frame_cds_trace self seq strand frame =
     frame_trace self seq strand (int frame + 1) (initial_start_site self) (frame_boundaries self seq frame)"

text \<open>
  Two predicates for the proofs about a frame with counter \<open>f\<close>. The first holds of the
  values \<open>start_site\<close> takes while the scanned boundaries of the frame are walked: closed, or
  at a position of the frame; with ignore_start, the implicit start 1 or the position after
  an earlier stop codon. The second relates the fields of a record: its span is a whole
  number of codons, and its length field is that span, plus \<open>f - 1\<close> for the record that
  ignore_start opened at position 1 and reports from \<open>f\<close>.
\<close>

definition in_frame_start :: "nextorf \<Rightarrow> int \<Rightarrow> int \<Rightarrow> bool" where
  "in_frame_start self f start_site =
     (if nostart self then start_site = 1 \<or> (3 < start_site \<and> start_site mod 3 = f mod 3)
      else start_site = 0 \<or> start_site mod 3 = f mod 3)"

definition span_ok :: "nextorf \<Rightarrow> int \<Rightarrow> cds \<Rightarrow> bool" where
  "span_ok self f r =
     ((cds_stop r - cds_start r + 1) mod 3 = 0 \<and>
      cds_length r = cds_stop r - cds_start r + 1 + (if nostart self \<and> cds_start r = f then f - 1 else 0))"

section \<open>GC statistics\<close>

text \<open>
  The arithmetic of Gc and Gc2 is in floating point. The model keeps the integer counts
  exact and takes the floating-point operation as a parameter: \<open>round_pct gc n\<close> stands for
  \<^verbatim>\<open>round(gc * 100.0 / n, 1)\<close> and \<open>pct x n\<close> for \<^verbatim>\<open>x * 100.0 / n\<close>, both for \<open>n \<noteq> 0\<close>.
  Dividing a float by zero raises \<^verbatim>\<open>ZeroDivisionError\<close>.
\<close>

datatype py_error = ZeroDivisionError

datatype 'f py_num = PyInt int | PyFloat 'f

definition Gc :: "(int \<Rightarrow> int \<Rightarrow> 'f) \<Rightarrow> string \<Rightarrow> 'f py_num" where
  "Gc round_pct seq =
     (let dA = int (count_list seq CHR ''A'');
          dT = int (count_list seq CHR ''T'');
          dG = int (count_list seq CHR ''G'');
          dC = int (count_list seq CHR ''C'');
          gc = dG + dC
      in if gc = 0 then PyInt 0 else PyFloat (round_pct gc (dA + dT + gc)))"

text \<open>
  The codons of the first loop of Gc2: \<^verbatim>\<open>seq[i : i + 3]\<close> for \<open>i\<close> in \<^verbatim>\<open>range(0, length, 3)\<close>,
  a short one padded with two blanks.
\<close>

definition gc2_codons :: "string \<Rightarrow> string list" where
  "gc2_codons seq =
     map (\<lambda>i. let codon = take 3 (drop i seq)
              in if length codon < 3 then codon @ ''  '' else codon)
         (py_range3 0 (length seq))"

text \<open>\<^verbatim>\<open>d[nt][pos]\<close> after the first loop: the codons whose symbol at \<open>pos\<close> is \<open>nt\<close>.\<close>

definition gc2_count :: "string list \<Rightarrow> char \<Rightarrow> nat \<Rightarrow> int" where
  "gc2_count codons nt pos = int (length (filter (\<lambda>codon. codon ! pos = nt) codons))"

text \<open>
  The second loop, over the codon positions, with the state \<^verbatim>\<open>(gc, gcall, nall)\<close>. The
  handler \<^verbatim>\<open>except KeyError\<close> does not catch the \<^verbatim>\<open>ZeroDivisionError\<close> of the division.
\<close>

fun gc2_positions ::
  "(int \<Rightarrow> int \<Rightarrow> 'f) \<Rightarrow> (char \<Rightarrow> nat \<Rightarrow> int) \<Rightarrow> nat list \<Rightarrow> 'f list \<times> int \<times> int
     \<Rightarrow> py_error + ('f list \<times> int \<times> int)" where
  "gc2_positions pct d [] st = Inr st"
| "gc2_positions pct d (i # is) (gc, gcall, nall) =
     (let n = d CHR ''G'' i + d CHR ''C'' i + d CHR ''T'' i + d CHR ''A'' i
      in if n = 0 then Inl ZeroDivisionError
         else gc2_positions pct d is
                (gc @ [pct (d CHR ''G'' i + d CHR ''C'' i) n],
                 gcall + d CHR ''G'' i + d CHR ''C'' i,
                 nall + n))"

text \<open>
  Gc2 returns the four values it formats, in the order \<^verbatim>\<open>gcall, gc[0], gc[1], gc[2]\<close>.
\<close>

definition Gc2 :: "(int \<Rightarrow> int \<Rightarrow> 'f) \<Rightarrow> string \<Rightarrow> py_error + ('f \<times> 'f \<times> 'f \<times> 'f)" where
  "Gc2 pct seq =
     (case gc2_positions pct (gc2_count (gc2_codons seq)) [0, 1, 2] ([], 0, 0) of
        Inl e \<Rightarrow> Inl e
      | Inr (gc, gcall, nall) \<Rightarrow>
          if nall = 0 then Inl ZeroDivisionError
          else Inr (pct gcall nall, gc ! 0, gc ! 1, gc ! 2))"

section \<open>Example inputs\<close>

text \<open>
  The unambiguous start and stop codons of the standard genetic code (table 1); the
  ambiguous table adds codons with ambiguity symbols, which match no slice of a sequence
  over A, C, G and T.
\<close>

definition standard :: nextorf where
  "standard = \<lparr> nostart = False, minlength = 1, maxlength = 100,
                start_codons = [''TTG'', ''CTG'', ''ATG''],
                stop_codons = [''TAA'', ''TAG'', ''TGA''],
                seq_length = 0 \<rparr>"

section \<open>Basic facts\<close>

lemma py_range3_iff: "i \<in> set (py_range3 a b) \<longleftrightarrow> a \<le> i \<and> i < b \<and> (i - a) mod 3 = 0"
proof
  assume "i \<in> set (py_range3 a b)"
  then obtain k where k: "i = a + 3 * k" "k < (b - a + 2) div 3"
    by (auto simp: py_range3_def)
  then show "a \<le> i \<and> i < b \<and> (i - a) mod 3 = 0" by auto
next
  assume h: "a \<le> i \<and> i < b \<and> (i - a) mod 3 = 0"
  then have "i = a + 3 * ((i - a) div 3)" by presburger
  moreover from h have "(i - a) div 3 < (b - a + 2) div 3" by presburger
  ultimately show "i \<in> set (py_range3 a b)"
    unfolding py_range3_def by (metis (no_types, lifting) add_0 atLeastLessThan_iff imageI
        le0 set_map set_upt)
qed

lemma GetCDS_ATGAAATAG:
  "GetCDS (ReadFile_self standard ''ATGAAATAG'') ''ATGAAATAG'' 1 = [CDS 1 9 9 ''ATGAAATAG'' 1]"
  by code_simp

section \<open>Statistics helper\<close>

text \<open>
  C4. The claim: whatever subsequence Gc2 is given, the empty one included, a zero
  denominator at a codon position gives a fixed fallback value and Gc2 never raises.
  The code divides inside \<^verbatim>\<open>try ... except KeyError\<close>, which lets the
  \<^verbatim>\<open>ZeroDivisionError\<close> through: on the empty subsequence Gc2 raises.
\<close>

theorem Gc2_empty_raises: "Gc2 pct '''' = Inl ZeroDivisionError"
  by (simp add: Gc2_def gc2_codons_def py_range3_def gc2_count_def)

text \<open>
  C9. Gc gives the same result on a sequence and on every permutation of it.
\<close>

theorem Gc_permutation_invariant: "mset s = mset s' \<Longrightarrow> Gc round_pct s = Gc round_pct s'"
proof -
  assume h: "mset s = mset s'"
  have "count_list s c = count_list s' c" for c
    by (metis h count_mset)
  then show ?thesis by (simp add: Gc_def)
qed

theorem Gc_permutation_invariant_witness:
  "mset ''GATTC'' = mset ''CTTAG'' \<and>
   Gc (\<lambda>gc n. (gc, n)) ''GATTC'' = Gc (\<lambda>gc n. (gc, n)) ''CTTAG''"
proof -
  have h: "mset ''GATTC'' = mset ''CTTAG''" by simp
  show ?thesis using h Gc_permutation_invariant [OF h, of "\<lambda>gc n. (gc, n)"] by simp
qed

section \<open>Length bounds of the CDS assembler\<close>

lemma cds_step_length:
  "r \<in> set (snd (cds_step self seq strand f start_site b)) \<Longrightarrow>
     minlength self \<le> cds_length r \<and> cds_length r \<le> maxlength self"
  by (cases b) (auto simp: cds_step.simps Let_def split: if_splits)

lemma frame_loop_length:
  "r \<in> set (frame_loop self seq strand f start_site bs) \<Longrightarrow>
     minlength self \<le> cds_length r \<and> cds_length r \<le> maxlength self"
proof (induction bs arbitrary: start_site)
  case Nil
  then show ?case by simp
next
  case (Cons b bs)
  obtain s' out where st: "cds_step self seq strand f start_site b = (s', out)"
    by (cases "cds_step self seq strand f start_site b")
  from Cons.prems st have "r \<in> set out \<or> r \<in> set (frame_loop self seq strand f s' bs)"
    by simp
  then show ?case
  proof
    assume "r \<in> set out"
    with st show ?thesis using cds_step_length [of r self seq strand f start_site b] by simp
  next
    assume "r \<in> set (frame_loop self seq strand f s' bs)"
    then show ?thesis by (rule Cons.IH)
  qed
qed

lemma frames_loop_length:
  "r \<in> set (frames_loop self seq strand f frames) \<Longrightarrow>
     minlength self \<le> cds_length r \<and> cds_length r \<le> maxlength self"
  by (induction frames arbitrary: f) (auto simp: Let_def dest: frame_loop_length)

text \<open>
  C3. Every record GetCDS returns has a length field between minlength and maxlength,
  both included, whatever the sequence, the strand and the options.
\<close>

theorem GetCDS_length_bounds:
  "\<forall>r \<in> set (GetCDS self seq strand).
     minlength self \<le> cds_length r \<and> cds_length r \<le> maxlength self"
  unfolding GetCDS_def using frames_loop_length by blast

theorem GetCDS_length_bounds_witness:
  "CDS 1 9 9 ''ATGAAATAG'' 1 \<in> set (GetCDS (ReadFile_self standard ''ATGAAATAG'') ''ATGAAATAG'' 1)
   \<and> minlength (ReadFile_self standard ''ATGAAATAG'') \<le> 9
   \<and> 9 \<le> maxlength (ReadFile_self standard ''ATGAAATAG'')"
  using GetCDS_length_bounds [of "ReadFile_self standard ''ATGAAATAG''" "''ATGAAATAG''" 1]
  by (simp add: GetCDS_ATGAAATAG)

section \<open>The frame scanner and the sentinel\<close>

lemma GetCDS_frames:
  "GetCDS self seq strand =
     frame_cds self seq strand 0 @ frame_cds self seq strand 1 @ frame_cds self seq strand 2"
  by (simp add: GetCDS_def GetOrfCoordinates_def frame_cds_def frame_boundaries_def Let_def)

lemma frame_trace_loop:
  "map snd (frame_trace self seq strand f start_site bs) = frame_loop self seq strand f start_site bs"
  by (induction bs arbitrary: start_site) (auto simp: comp_def split: prod.splits)

lemma frame_cds_trace_cds:
  "map snd (frame_cds_trace self seq strand frame) = frame_cds self seq strand frame"
  by (simp add: frame_cds_trace_def frame_cds_def frame_trace_loop)

lemma scan_indices_iff:
  "i \<in> set (scan_indices n frame) \<longleftrightarrow> frame \<le> i \<and> i < n - n mod 3 \<and> (i - frame) mod 3 = 0"
  by (simp add: scan_indices_def py_range3_iff)

lemma scan_indices_short: "n < 3 \<Longrightarrow> scan_indices n frame = []"
  by (simp add: scan_indices_def py_range3_def)

lemma classify_cases:
  "b \<in> set (classify self seq i) \<Longrightarrow>
     fst b = int i + 1 \<and> snd (snd b) = take 3 (drop i seq) \<and>
     snd (snd b) \<in> set (start_codons self) \<union> set (stop_codons self) \<and>
     (fst (snd b) = START \<or> fst (snd b) = STOP)"
  by (auto simp: classify_def Let_def START_def STOP_def split: if_splits)

lemma frame_scan_cases:
  "b \<in> set (frame_scan self seq frame) \<Longrightarrow>
     \<exists>i \<in> set (scan_indices (length seq) frame). b \<in> set (classify self seq i)"
  by (auto simp: frame_scan_def)

text \<open>
  C8. For every sequence \<open>S\<close>, GetCDS walks three boundary lists, one per frame counter 1, 2
  and 3, and each of them is the scanner's list of that frame with the sentinel appended:
  it is not empty and its last element is the sentinel (position \<open>len(S)\<close>, kind STOP, codon
  text XXX); for a sequence shorter than one codon, the empty one included, each list is
  the sentinel alone.
\<close>

theorem sentinel_last:
  "GetCDS (ReadFile_self self seq) seq strand =
     frame_loop (ReadFile_self self seq) seq strand 1 (initial_start_site (ReadFile_self self seq))
       (frame_boundaries (ReadFile_self self seq) seq 0) @
     frame_loop (ReadFile_self self seq) seq strand 2 (initial_start_site (ReadFile_self self seq))
       (frame_boundaries (ReadFile_self self seq) seq 1) @
     frame_loop (ReadFile_self self seq) seq strand 3 (initial_start_site (ReadFile_self self seq))
       (frame_boundaries (ReadFile_self self seq) seq 2) \<and>
   (\<forall>frame \<in> {0, 1, 2}.
      frame_boundaries (ReadFile_self self seq) seq frame =
        GetOrfCoordinates (ReadFile_self self seq) seq ! frame @ [(int (length seq), STOP, ''XXX'')] \<and>
      frame_boundaries (ReadFile_self self seq) seq frame \<noteq> [] \<and>
      last (frame_boundaries (ReadFile_self self seq) seq frame) = (int (length seq), STOP, ''XXX'') \<and>
      (length seq < 3 \<longrightarrow>
         frame_boundaries (ReadFile_self self seq) seq frame = [(int (length seq), STOP, ''XXX'')]))"
proof
  show "GetCDS (ReadFile_self self seq) seq strand =
     frame_loop (ReadFile_self self seq) seq strand 1 (initial_start_site (ReadFile_self self seq))
       (frame_boundaries (ReadFile_self self seq) seq 0) @
     frame_loop (ReadFile_self self seq) seq strand 2 (initial_start_site (ReadFile_self self seq))
       (frame_boundaries (ReadFile_self self seq) seq 1) @
     frame_loop (ReadFile_self self seq) seq strand 3 (initial_start_site (ReadFile_self self seq))
       (frame_boundaries (ReadFile_self self seq) seq 2)"
    using GetCDS_frames [of "ReadFile_self self seq" seq strand] by (simp add: frame_cds_def)
next
  show "\<forall>frame \<in> {0, 1, 2}.
      frame_boundaries (ReadFile_self self seq) seq frame =
        GetOrfCoordinates (ReadFile_self self seq) seq ! frame @ [(int (length seq), STOP, ''XXX'')] \<and>
      frame_boundaries (ReadFile_self self seq) seq frame \<noteq> [] \<and>
      last (frame_boundaries (ReadFile_self self seq) seq frame) = (int (length seq), STOP, ''XXX'') \<and>
      (length seq < 3 \<longrightarrow>
         frame_boundaries (ReadFile_self self seq) seq frame = [(int (length seq), STOP, ''XXX'')])"
    by (simp add: frame_boundaries_def sentinel_def ReadFile_self_def STOP_def frame_scan_def
        scan_indices_short GetOrfCoordinates_def)
qed

theorem sentinel_last_witness:
  "(1::nat) \<in> {0, 1, 2} \<and> length ''AT'' < 3 \<and>
   frame_boundaries (ReadFile_self standard ''AT'') ''AT'' 1 = [(2, STOP, ''XXX'')] \<and>
   last (frame_boundaries (ReadFile_self standard ''ATGAAATAG'') ''ATGAAATAG'' 1) = (9, STOP, ''XXX'') \<and>
   GetCDS (ReadFile_self standard ''AT'') ''AT'' 1 =
     frame_loop (ReadFile_self standard ''AT'') ''AT'' 1 1 (initial_start_site (ReadFile_self standard ''AT''))
       (frame_boundaries (ReadFile_self standard ''AT'') ''AT'' 0) @
     frame_loop (ReadFile_self standard ''AT'') ''AT'' 1 2 (initial_start_site (ReadFile_self standard ''AT''))
       (frame_boundaries (ReadFile_self standard ''AT'') ''AT'' 1) @
     frame_loop (ReadFile_self standard ''AT'') ''AT'' 1 3 (initial_start_site (ReadFile_self standard ''AT''))
       (frame_boundaries (ReadFile_self standard ''AT'') ''AT'' 2)"
proof -
  have m: "(1::nat) \<in> {0, 1, 2}" by simp
  have l: "length ''AT'' < 3" by simp
  note short = sentinel_last [of standard "''AT''" 1]
  note long = sentinel_last [of standard "''ATGAAATAG''" 1]
  from short [THEN conjunct2, THEN bspec, OF m] l
  have a: "frame_boundaries (ReadFile_self standard ''AT'') ''AT'' 1 = [(int (length ''AT''), STOP, ''XXX'')]"
    by blast
  from long [THEN conjunct2, THEN bspec, OF m]
  have b: "last (frame_boundaries (ReadFile_self standard ''ATGAAATAG'') ''ATGAAATAG'' 1)
             = (int (length ''ATGAAATAG''), STOP, ''XXX'')"
    by blast
  from a have a': "frame_boundaries (ReadFile_self standard ''AT'') ''AT'' 1 = [(2, STOP, ''XXX'')]"
    by simp
  from b have b': "last (frame_boundaries (ReadFile_self standard ''ATGAAATAG'') ''ATGAAATAG'' 1)
             = (9, STOP, ''XXX'')"
    by simp
  from m l a' b' short [THEN conjunct1] show ?thesis by blast
qed

text \<open>
  C7. The claim: every boundary of the list of frame \<open>f\<close>, the appended ones included, has
  a position congruent to \<open>f + 1\<close> modulo 3. The sentinel does not: its position is the
  length of the sequence, whatever the frame.
\<close>

theorem boundary_congruence_counterexample:
  "(9, STOP, ''XXX'') \<in> set (frame_boundaries (ReadFile_self standard ''ATGAAATAG'') ''ATGAAATAG'' 0)
   \<and> \<not> ((9::int) mod 3 = (int 0 + 1) mod 3)"
  by code_simp

text \<open>
  C7, amended. Every boundary of the list of frame \<open>f\<close> but the last has a position
  congruent to \<open>f + 1\<close> modulo 3; the last one is the sentinel, at position \<open>len(S)\<close>.
\<close>

theorem scanned_positions_in_frame:
  "(\<forall>b \<in> set (butlast (frame_boundaries (ReadFile_self self seq) seq frame)).
      fst b mod 3 = (int frame + 1) mod 3) \<and>
   fst (last (frame_boundaries (ReadFile_self self seq) seq frame)) = int (length seq)"
proof -
  have "fst b mod 3 = (int frame + 1) mod 3"
    if "b \<in> set (frame_scan (ReadFile_self self seq) seq frame)" for b
  proof -
    from that obtain i where i: "i \<in> set (scan_indices (length seq) frame)"
      and b: "b \<in> set (classify (ReadFile_self self seq) seq i)"
      using frame_scan_cases by blast
    from i have "frame \<le> i" "(i - frame) mod 3 = 0" by (simp_all add: scan_indices_iff)
    then have "int i mod 3 = int frame mod 3" by presburger
    moreover from b have "fst b = int i + 1" using classify_cases by blast
    ultimately show ?thesis by presburger
  qed
  then show ?thesis
    by (simp add: frame_boundaries_def sentinel_def ReadFile_self_def)
qed

theorem scanned_positions_in_frame_witness:
  "(1, START, ''ATG'') \<in> set (butlast (frame_boundaries (ReadFile_self standard ''ATGAAATAG'') ''ATGAAATAG'' 0))
   \<and> (1::int) mod 3 = (int 0 + 1) mod 3"
proof -
  have "(1, START, ''ATG'') \<in> set (butlast (frame_boundaries (ReadFile_self standard ''ATGAAATAG'') ''ATGAAATAG'' 0))"
    by code_simp
  then show ?thesis
    using scanned_positions_in_frame [of standard "''ATGAAATAG''" 0] by simp
qed

section \<open>A record shorter than the requested window\<close>

lemma ReadFile_self_fields [simp]:
  "nostart (ReadFile_self self s) = nostart self"
  "minlength (ReadFile_self self s) = minlength self"
  "maxlength (ReadFile_self self s) = maxlength self"
  "start_codons (ReadFile_self self s) = start_codons self"
  "stop_codons (ReadFile_self self s) = stop_codons self"
  "seq_length (ReadFile_self self s) = int (length s)"
  by (simp_all add: ReadFile_self_def)

lemma frame_boundaries_empty: "frame_boundaries (ReadFile_self self []) [] frame = [(0, 0, ''XXX'')]"
  by (simp add: frame_boundaries_def frame_scan_def scan_indices_short sentinel_def)

lemma frame_cds_empty:
  "frame_cds (ReadFile_self self []) [] strand frame =
     (if nostart self \<and> minlength self \<le> 2 \<and> 2 \<le> maxlength self
      then [CDS (int frame + 1) (int frame + 1 + 3 * ((0 - int frame) div 3)) 2 [] (strand * (int frame + 1))]
      else [])"
  by (simp add: frame_cds_def frame_boundaries_empty initial_start_site_def cds_step.simps
      START_def STOP_def py_slice_def Let_def)

text \<open>
  C5, amended. When the window of the record is empty, GetCDS returns without failing
  (it is a total function of its inputs). It returns no record when ignore_start is off or
  2 is outside the range from minlength to maxlength; otherwise it returns one record per
  frame, each with an empty subsequence and the length field 2.
\<close>

theorem empty_window_scan:
  assumes "ReadFile_window start stop s = []"
  shows "GetCDS (ReadFile_self self (ReadFile_window start stop s)) (ReadFile_window start stop s) strand =
           (if nostart self \<and> minlength self \<le> 2 \<and> 2 \<le> maxlength self
            then [CDS 1 1 2 [] (strand * 1), CDS 2 (- 1) 2 [] (strand * 2), CDS 3 0 2 [] (strand * 3)]
            else [])"
  unfolding assms GetCDS_frames by (simp add: frame_cds_empty)

text \<open>
  C5. The claim: a record shorter than the requested window gives no CDS record, whatever
  the options. With ignore_start on and minlength at most 2, the sentinel closes the
  implicit start at position 1 in every frame and three records are returned.
\<close>

theorem empty_window_counterexample:
  "ReadFile_window 5 0 ''ATG'' = [] \<and>
   GetCDS (ReadFile_self (standard\<lparr>nostart := True\<rparr>) (ReadFile_window 5 0 ''ATG'')) (ReadFile_window 5 0 ''ATG'') 1
     = [CDS 1 1 2 [] 1, CDS 2 (- 1) 2 [] 2, CDS 3 0 2 [] 3]"
  by code_simp

theorem empty_window_scan_witness:
  "ReadFile_window 5 0 ''ATG'' = [] \<and>
   GetCDS (ReadFile_self standard (ReadFile_window 5 0 ''ATG'')) (ReadFile_window 5 0 ''ATG'') (- 1) = []"
proof -
  have h: "ReadFile_window 5 0 ''ATG'' = []" by code_simp
  show ?thesis using h empty_window_scan [OF h, of standard "- 1"] by (simp add: standard_def)
qed

section \<open>The indices the frame scanner visits\<close>

lemma frame_residue:
  "frame < 3 \<Longrightarrow> frame \<le> i \<Longrightarrow> ((i - frame) mod 3 = 0) = (i mod 3 = (frame::nat))"
  by presburger

lemma full_codon_bound:
  assumes "frame \<le> i" "(i - frame) mod 3 = 0" "i + 3 \<le> (n::nat)"
  shows "i + 3 \<le> n - ((n - frame) mod 3)"
proof -
  from assms(2) have "3 dvd (i - frame)" by (simp add: mod_eq_0_iff_dvd)
  then obtain k where "i - frame = 3 * k" by (auto simp: dvd_def)
  with assms(1) have k: "i = frame + 3 * k" by simp
  with assms(3) have "3 * (k + 1) \<le> n - frame" by simp
  then have "k + 1 \<le> (n - frame) div 3" by simp
  then have "3 * (k + 1) \<le> 3 * ((n - frame) div 3)" by simp
  also have "3 * ((n - frame) div 3) = (n - frame) - (n - frame) mod 3"
    by (simp add: minus_mod_eq_mult_div [symmetric])
  finally have "3 * (k + 1) \<le> (n - frame) - (n - frame) mod 3" .
  with k show ?thesis by simp
qed

text \<open>
  C6. The claim: in frame \<open>f\<close> the scanner extracts and classifies the codon at index \<open>i\<close>
  only when \<open>i + 3 \<le> n - ((n - f) mod 3)\<close>, so never a trailing partial codon. The bound of
  the loop is \<open>n - n mod 3\<close> whatever the frame: for a sequence of length 9, frame 1
  reaches index 7 and slices the two symbols left there.
\<close>

theorem partial_codon_counterexample:
  "7 \<in> set (scan_indices (length ''ATGAAATAG'') 1) \<and>
   \<not> (7 + 3 \<le> length ''ATGAAATAG'' - ((length ''ATGAAATAG'' - 1) mod 3)) \<and>
   take 3 (drop 7 ''ATGAAATAG'') = ''AG''"
  by code_simp

text \<open>
  C6, amended. In frame \<open>f\<close> the scanner visits exactly the indices \<open>i\<close> with
  \<open>f \<le> i < n - n mod 3\<close> and \<open>i mod 3 = f\<close>; the slice at the last of them may be shorter
  than a codon. When the start and stop codons of the table all have three symbols, such
  a slice matches none of them: every boundary the scanner records is at an index \<open>i\<close>
  with \<open>i + 3 \<le> n - ((n - f) mod 3)\<close> and carries the complete codon at \<open>i\<close>.
\<close>

theorem complete_codons_recorded:
  assumes "\<forall>c \<in> set (start_codons self) \<union> set (stop_codons self). length c = 3"
    and "frame < 3"
  shows "(i \<in> set (scan_indices (length seq) frame) \<longleftrightarrow>
            frame \<le> i \<and> i < length seq - length seq mod 3 \<and> i mod 3 = frame) \<and>
         (\<forall>b \<in> set (frame_scan self seq frame).
            \<exists>i \<in> set (scan_indices (length seq) frame).
              fst b = int i + 1 \<and> snd (snd b) = take 3 (drop i seq) \<and>
              i + 3 \<le> length seq - ((length seq - frame) mod 3))"
proof
  show "i \<in> set (scan_indices (length seq) frame) \<longleftrightarrow>
          frame \<le> i \<and> i < length seq - length seq mod 3 \<and> i mod 3 = frame"
    using frame_residue [OF assms(2), of i] by (auto simp: scan_indices_iff)
next
  show "\<forall>b \<in> set (frame_scan self seq frame).
          \<exists>i \<in> set (scan_indices (length seq) frame).
            fst b = int i + 1 \<and> snd (snd b) = take 3 (drop i seq) \<and>
            i + 3 \<le> length seq - ((length seq - frame) mod 3)"
  proof
    fix b assume "b \<in> set (frame_scan self seq frame)"
    then obtain i where i: "i \<in> set (scan_indices (length seq) frame)"
      and b: "b \<in> set (classify self seq i)"
      using frame_scan_cases by blast
    have c1: "fst b = int i + 1" and c2: "snd (snd b) = take 3 (drop i seq)"
      and c3: "snd (snd b) \<in> set (start_codons self) \<union> set (stop_codons self)"
      using classify_cases [OF b] by blast+
    from assms(1) c3 have "length (snd (snd b)) = 3" by (rule bspec)
    with c2 have "length (take 3 (drop i seq)) = 3" by simp
    then have full: "i + 3 \<le> length seq" by simp
    from i have "frame \<le> i" "(i - frame) mod 3 = 0" by (simp_all add: scan_indices_iff)
    then have "i + 3 \<le> length seq - ((length seq - frame) mod 3)"
      using full by (rule full_codon_bound)
    with i c1 c2 show "\<exists>i \<in> set (scan_indices (length seq) frame).
            fst b = int i + 1 \<and> snd (snd b) = take 3 (drop i seq) \<and>
            i + 3 \<le> length seq - ((length seq - frame) mod 3)" by (intro bexI conjI)
  qed
qed

theorem complete_codons_recorded_witness:
  "(1::nat) < 3 \<and>
   (2, STOP, ''TGA'') \<in> set (frame_scan standard ''ATGAAATAG'' 1) \<and>
   (7 \<in> set (scan_indices (length ''ATGAAATAG'') 1)) \<and>
   (1::nat) + 3 \<le> length ''ATGAAATAG'' - ((length ''ATGAAATAG'' - 1) mod 3)"
proof -
  have h1: "\<forall>c \<in> set (start_codons standard) \<union> set (stop_codons standard). length c = 3"
    by (simp add: standard_def)
  have h2: "(1::nat) < 3" by simp
  have m: "(2, STOP, ''TGA'') \<in> set (frame_scan standard ''ATGAAATAG'' 1)" by code_simp
  show ?thesis
    using h1 h2 m complete_codons_recorded [OF h1 h2, of 7 "''ATGAAATAG''"] by simp
qed

section \<open>Records closed by a stop codon, records closed by the sentinel\<close>

lemma cds_step_START:
  "cds_step self seq strand f ss (pos, START, codon) = (if ss = 0 then pos else ss, [])"
  by (simp add: cds_step.simps)

lemma cds_step_other:
  "ct \<noteq> START \<Longrightarrow> ct \<noteq> STOP \<Longrightarrow> cds_step self seq strand f ss (pos, ct, codon) = (ss, [])"
  by (simp add: cds_step.simps)

lemma cds_step_STOP_closed:
  "cds_step self seq strand f 0 (pos, STOP, codon) = (0, [])"
  by (simp add: cds_step.simps START_def STOP_def)

lemma cds_step_true_stop:
  assumes "ss \<noteq> 0" "codon \<noteq> ''XXX''"
  shows "cds_step self seq strand f ss (pos, STOP, codon) =
     (if nostart self then pos + 3 else 0,
      if minlength self \<le> pos + 3 - ss \<and> pos + 3 - ss \<le> maxlength self
      then [CDS (if nostart self \<and> ss = 1 then f else ss) (pos + 2) (pos + 3 - ss)
              (py_slice seq ((if nostart self \<and> ss = 1 then f else ss) - 1) (pos + 2)) (strand * f)]
      else [])"
  using assms by (simp add: cds_step.simps START_def STOP_def Let_def algebra_simps)

lemma mod3_shift: "pos mod 3 = f mod 3 \<Longrightarrow> (pos + 3) mod 3 = (f::int) mod 3"
  by presburger

lemma mod3_span: "ss mod 3 = f mod 3 \<Longrightarrow> pos mod 3 = f mod 3 \<Longrightarrow> (pos + 2 - ss + 1) mod 3 = (0::int)"
  by presburger

lemma span_ok_true_stop:
  assumes "in_frame_start self f ss" "ss \<noteq> 0" "pos mod 3 = f mod 3" "1 \<le> f" "f \<le> 3"
  shows "span_ok self f (CDS (if nostart self \<and> ss = 1 then f else ss) (pos + 2) (pos + 3 - ss) s tag)"
proof (cases "nostart self \<and> ss = 1")
  case True
  with assms(3) show ?thesis
    using mod3_span [of f f pos] by (simp add: span_ok_def)
next
  case False
  with assms(1,2) have m: "ss mod 3 = f mod 3" and n: "nostart self \<longrightarrow> ss \<noteq> f"
    using assms(5) by (auto simp: in_frame_start_def split: if_splits)
  from n have nf: "\<not> (nostart self \<and> ss = f)" by blast
  from False have eq: "(if nostart self \<and> ss = 1 then f else ss) = ss" by auto
  show ?thesis
    unfolding eq span_ok_def using nf False mod3_span [OF m assms(3)] by (auto simp: algebra_simps)
qed

lemma cds_step_in_frame:
  assumes "in_frame_start self f ss" "1 \<le> fst b" "fst b mod 3 = f mod 3" "1 \<le> f" "f \<le> 3"
    and "fst (snd b) = STOP \<longrightarrow> snd (snd b) \<noteq> ''XXX''"
  shows "in_frame_start self f (fst (cds_step self seq strand f ss b)) \<and>
         (\<forall>r \<in> set (snd (cds_step self seq strand f ss b)). span_ok self f r)"
proof -
  obtain pos ct codon where b: "b = (pos, ct, codon)" by (cases b)
  from assms b have pos: "1 \<le> pos" "pos mod 3 = f mod 3" by simp_all
  consider (start) "ct = START" | (stop0) "ct = STOP" "ss = 0" | (stop) "ct = STOP" "ss \<noteq> 0"
    | (other) "ct \<noteq> START" "ct \<noteq> STOP" by blast
  then show ?thesis
  proof cases
    case start
    with assms(1) pos b show ?thesis
      by (auto simp: cds_step_START in_frame_start_def split: if_splits)
  next
    case stop0
    with assms(1) b show ?thesis by (simp add: cds_step_STOP_closed)
  next
    case other
    with assms(1) b show ?thesis by (simp add: cds_step_other)
  next
    case stop
    with assms(6) b have x: "codon \<noteq> ''XXX''" by simp
    have st: "in_frame_start self f (if nostart self then pos + 3 else 0)"
      using pos mod3_shift [OF pos(2)] by (simp add: in_frame_start_def)
    show ?thesis
      unfolding b stop(1) cds_step_true_stop [OF stop(2) x]
      using st span_ok_true_stop [OF assms(1) stop(2) pos(2) assms(4,5)] by simp
  qed
qed

lemma frame_trace_Cons_mem:
  "(c, r) \<in> set (frame_trace self seq strand f ss (b # bs)) \<Longrightarrow>
     (c = snd (snd b) \<and> r \<in> set (snd (cds_step self seq strand f ss b))) \<or>
     (c, r) \<in> set (frame_trace self seq strand f (fst (cds_step self seq strand f ss b)) bs)"
  by (cases "cds_step self seq strand f ss b") auto

lemma frame_trace_in_frame:
  assumes "\<forall>b \<in> set bs. 1 \<le> fst b \<and> fst b mod 3 = f mod 3 \<and>
             (fst (snd b) = STOP \<longrightarrow> snd (snd b) \<noteq> ''XXX'')"
    and "in_frame_start self f ss" "1 \<le> f" "f \<le> 3" "snd (snd s) = ''XXX''"
    and "(c, r) \<in> set (frame_trace self seq strand f ss (bs @ [s]))" "c \<noteq> ''XXX''"
  shows "span_ok self f r"
  using assms(1,2,6)
proof (induction bs arbitrary: ss)
  case Nil
  from Nil(3) have "(c, r) \<in> set (frame_trace self seq strand f ss (s # []))" by simp
  then have "c = snd (snd s)" by (rule frame_trace_Cons_mem [THEN disjE]) simp_all
  with assms(5,7) show ?case by simp
next
  case (Cons b bs)
  from Cons.prems(1) have b: "1 \<le> fst b" "fst b mod 3 = f mod 3"
    "fst (snd b) = STOP \<longrightarrow> snd (snd b) \<noteq> ''XXX''" by simp_all
  from Cons.prems(1) have rest: "\<forall>b \<in> set bs. 1 \<le> fst b \<and> fst b mod 3 = f mod 3 \<and>
      (fst (snd b) = STOP \<longrightarrow> snd (snd b) \<noteq> ''XXX'')" by simp
  note step = cds_step_in_frame [OF Cons.prems(2) b(1,2) assms(3,4) b(3), of seq strand]
  from Cons.prems(3) have "(c, r) \<in> set (frame_trace self seq strand f ss (b # (bs @ [s])))" by simp
  then show ?case
  proof (rule frame_trace_Cons_mem [THEN disjE])
    assume "c = snd (snd b) \<and> r \<in> set (snd (cds_step self seq strand f ss b))"
    with step show ?thesis by blast
  next
    assume "(c, r) \<in> set (frame_trace self seq strand f (fst (cds_step self seq strand f ss b)) (bs @ [s]))"
    with rest step show ?thesis using Cons.IH by blast
  qed
qed

lemma classify_stop_text:
  "b \<in> set (classify self seq i) \<Longrightarrow> fst (snd b) = STOP \<Longrightarrow> snd (snd b) \<in> set (stop_codons self)"
  by (auto simp: classify_def Let_def START_def STOP_def split: if_splits)

lemma frame_scan_in_frame:
  assumes "''XXX'' \<notin> set (stop_codons self)" "b \<in> set (frame_scan self seq frame)"
  shows "1 \<le> fst b \<and> fst b mod 3 = (int frame + 1) mod 3 \<and>
         (fst (snd b) = STOP \<longrightarrow> snd (snd b) \<noteq> ''XXX'')"
proof -
  from assms(2) obtain i where i: "i \<in> set (scan_indices (length seq) frame)"
    and b: "b \<in> set (classify self seq i)"
    using frame_scan_cases by blast
  from i have "frame \<le> i" "(i - frame) mod 3 = 0" by (simp_all add: scan_indices_iff)
  then have "int i mod 3 = int frame mod 3" by presburger
  moreover from b have p: "fst b = int i + 1" using classify_cases by blast
  ultimately have "fst b mod 3 = (int frame + 1) mod 3" by presburger
  moreover from p have "1 \<le> fst b" by simp
  moreover have "fst (snd b) = STOP \<longrightarrow> snd (snd b) \<noteq> ''XXX''"
    using classify_stop_text [OF b] assms(1) by auto
  ultimately show ?thesis by blast
qed

text \<open>
  C2, amended. The stop codons of the table do not include the sentinel text XXX. Every
  record of a frame closed by a true stop codon spans a whole number of codons,
  \<open>(stop - start + 1) mod 3 = 0\<close>; its length field is \<open>stop - start + 1\<close>, except for the
  record that ignore_start opened at position 1 in frame 2 or 3: its start is reported as
  \<open>f\<close> and its length field, measured from position 1, is \<open>stop - start + 1 + (f - 1)\<close>.
  With ignore_start off, and in frame 1, the claim holds as stated.
\<close>

theorem true_stop_records:
  assumes "''XXX'' \<notin> set (stop_codons self)" and "frame < 3"
  shows "\<forall>(c, r) \<in> set (frame_cds_trace (ReadFile_self self seq) seq strand frame).
           c \<noteq> ''XXX'' \<longrightarrow>
             (cds_stop r - cds_start r + 1) mod 3 = 0 \<and>
             cds_length r = cds_stop r - cds_start r + 1 +
               (if nostart self \<and> cds_start r = int frame + 1 then int frame else 0)"
proof -
  let ?self = "ReadFile_self self seq"
  have x: "''XXX'' \<notin> set (stop_codons ?self)" using assms(1) by simp
  have bs: "\<forall>b \<in> set (frame_scan ?self seq frame). 1 \<le> fst b \<and> fst b mod 3 = (int frame + 1) mod 3 \<and>
      (fst (snd b) = STOP \<longrightarrow> snd (snd b) \<noteq> ''XXX'')"
    using frame_scan_in_frame [OF x] by blast
  have init: "in_frame_start ?self (int frame + 1) (initial_start_site ?self)"
    by (simp add: in_frame_start_def initial_start_site_def)
  have f: "1 \<le> int frame + 1" "int frame + 1 \<le> 3" using assms(2) by simp_all
  have s: "snd (snd (sentinel ?self)) = ''XXX''" by (simp add: sentinel_def)
  have "span_ok ?self (int frame + 1) r"
    if "(c, r) \<in> set (frame_cds_trace ?self seq strand frame)" "c \<noteq> ''XXX''" for c r
    using frame_trace_in_frame [OF bs init f s _ that(2)] that(1)
    by (simp add: frame_cds_trace_def frame_boundaries_def)
  then have "(cds_stop r - cds_start r + 1) mod 3 = 0 \<and>
             cds_length r = cds_stop r - cds_start r + 1 +
               (if nostart self \<and> cds_start r = int frame + 1 then int frame else 0)"
    if "(c, r) \<in> set (frame_cds_trace ?self seq strand frame)" "c \<noteq> ''XXX''" for c r
    using that by (simp add: span_ok_def)
  then show ?thesis by blast
qed

text \<open>
  C2. The claim: a record closed by a true stop codon has \<open>length = stop - start + 1\<close> and
  \<open>length mod 3 = 0\<close>, whatever minlength, maxlength and ignore_start. With ignore_start
  on, frame 2 of ATAAAAA closes the implicit start at the stop codon TAA: start 2, stop 4,
  length 4.
\<close>

theorem true_stop_records_counterexample:
  "frame_cds_trace (ReadFile_self (standard\<lparr>nostart := True\<rparr>) ''ATAAAAA'') ''ATAAAAA'' 1 1
     = [(''TAA'', CDS 2 4 4 ''TAA'' 2), (''XXX'', CDS 5 8 5 ''AAA'' 2)]
   \<and> \<not> ((4::int) = 4 - 2 + 1 \<and> (4::int) mod 3 = 0)"
  by code_simp

lemma standard_nostart: "\<not> nostart standard"
  by (simp add: standard_def)

lemma trace_ATGAAATAG:
  "frame_cds_trace (ReadFile_self standard ''ATGAAATAG'') ''ATGAAATAG'' 1 0
     = [(''TAG'', CDS 1 9 9 ''ATGAAATAG'' 1)]"
  by code_simp

theorem true_stop_records_witness:
  "''XXX'' \<notin> set (stop_codons standard) \<and> (0::nat) < 3 \<and>
   (''TAG'', CDS 1 9 9 ''ATGAAATAG'' 1)
      \<in> set (frame_cds_trace (ReadFile_self standard ''ATGAAATAG'') ''ATGAAATAG'' 1 0) \<and>
   ''TAG'' \<noteq> ''XXX'' \<and> ((9::int) - 1 + 1) mod 3 = 0 \<and> (9::int) = 9 - 1 + 1 + 0"
proof -
  have h1: "''XXX'' \<notin> set (stop_codons standard)" by (simp add: standard_def)
  have h2: "(0::nat) < 3" by simp
  show ?thesis
    using h1 true_stop_records [OF h1 h2, of "''ATGAAATAG''" 1]
    by (simp add: trace_ATGAAATAG standard_nostart)
qed

text \<open>
  Whatever closes at a boundary with the text XXX has \<open>stop - start\<close>, not the span
  \<open>stop - start + 1\<close>, a multiple of 3.
\<close>

lemma cds_step_sentinel_text:
  assumes "r \<in> set (snd (cds_step self seq strand f ss (pos, ct, ''XXX'')))"
  shows "(cds_stop r - cds_start r) mod 3 = 0"
  using assms by (auto simp: cds_step.simps Let_def split: if_splits)

lemma sentinel_closed_span:
  assumes "(''XXX'', r) \<in> set (frame_trace self seq strand f ss bs)"
  shows "(cds_stop r - cds_start r) mod 3 = 0"
  using assms
proof (induction bs arbitrary: ss)
  case Nil
  then show ?case by simp
next
  case (Cons b bs)
  from Cons.prems show ?case
  proof (rule frame_trace_Cons_mem [THEN disjE])
    assume a: "''XXX'' = snd (snd b) \<and> r \<in> set (snd (cds_step self seq strand f ss b))"
    obtain pos ct codon where b: "b = (pos, ct, codon)" by (cases b)
    with a have "r \<in> set (snd (cds_step self seq strand f ss (pos, ct, ''XXX'')))" by simp
    then show ?thesis by (rule cds_step_sentinel_text)
  next
    assume "(''XXX'', r) \<in> set (frame_trace self seq strand f (fst (cds_step self seq strand f ss b)) bs)"
    then show ?thesis by (rule Cons.IH)
  qed
qed

text \<open>
  C1. The claim: a record closed by the sentinel has its stop lowered so that
  \<open>(stop - start_site) + 1\<close> is a positive multiple of 3. The code sets
  \<open>stop = start_site + 3 * ((stop - 1 - start_site) div 3)\<close>, one more than the end of the last
  complete codon: for ATGAAAAAAA the record of frame 1 is closed by the sentinel with
  start 1 and stop 10, a span of 10 symbols.
\<close>

theorem sentinel_truncation_off_by_one:
  "frame_cds_trace (ReadFile_self standard ''ATGAAAAAAA'') ''ATGAAAAAAA'' 1 0
     = [(''XXX'', CDS 1 10 12 ''ATGAAAAAAA'' 1)]
   \<and> ((10::int) - 1 + 1) mod 3 = 1"
  by code_simp

section \<open>Order of the records of a frame\<close>

lemma sorted_wrt_concat_map:
  assumes "sorted_wrt Q xs"
    and "\<And>x. x \<in> set xs \<Longrightarrow> sorted_wrt R (g x)"
    and "\<And>x y a b. Q x y \<Longrightarrow> a \<in> set (g x) \<Longrightarrow> b \<in> set (g y) \<Longrightarrow> R a b"
  shows "sorted_wrt R (concat (map g xs))"
  using assms(1,2)
proof (induction xs)
  case Nil
  then show ?case by simp
next
  case (Cons x xs)
  from Cons.prems(1) have q: "\<forall>y \<in> set xs. Q x y" and s: "sorted_wrt Q xs" by simp_all
  have rest: "sorted_wrt R (concat (map g xs))"
    using Cons.IH [OF s] Cons.prems(2) by simp
  have cross: "\<forall>a \<in> set (g x). \<forall>b \<in> set (concat (map g xs)). R a b"
    using q assms(3) by auto
  from Cons.prems(2) have "sorted_wrt R (g x)" by simp
  with rest cross show ?case by (simp add: sorted_wrt_append)
qed

lemma py_range3_sorted: "sorted_wrt (\<lambda>i j. i + 3 \<le> j) (py_range3 a b)"
proof -
  have "sorted_wrt (\<lambda>k l. a + 3 * k + 3 \<le> a + 3 * l) [0 ..< (b - a + 2) div 3]"
    by (rule sorted_wrt_mono_rel [where P = "(<)"]) (auto simp: sorted_wrt_upt)
  then show ?thesis by (simp add: py_range3_def sorted_wrt_map)
qed

lemma classify_sorted: "sorted_wrt R (classify self seq i)"
  by (simp add: classify_def Let_def)

lemma frame_scan_sorted: "sorted_wrt (\<lambda>a b. fst a + 3 \<le> fst b) (frame_scan self seq frame)"
  unfolding frame_scan_def scan_indices_def
proof (rule sorted_wrt_concat_map [OF py_range3_sorted classify_sorted])
  fix x y a b
  assume "x + 3 \<le> y" "a \<in> set (classify self seq x)" "b \<in> set (classify self seq y)"
  then show "fst a + 3 \<le> fst b" using classify_cases [of a self seq x] classify_cases [of b self seq y]
    by simp
qed

lemma frame_scan_pos_le:
  assumes "b \<in> set (frame_scan self seq frame)"
  shows "fst b \<le> int (length seq)"
proof -
  from assms obtain i where i: "i \<in> set (scan_indices (length seq) frame)"
    and b: "b \<in> set (classify self seq i)"
    using frame_scan_cases by blast
  from i have "i < length seq - length seq mod 3" by (simp add: scan_indices_iff)
  then have "i < length seq" by simp
  moreover from b have "fst b = int i + 1" using classify_cases by blast
  ultimately show ?thesis by simp
qed

lemma frame_boundaries_sorted:
  "sorted_wrt (\<lambda>a b. fst a \<le> fst b \<and> (fst (snd b) = START \<longrightarrow> fst a + 3 \<le> fst b))
     (frame_boundaries (ReadFile_self self seq) seq frame)"
proof -
  let ?self = "ReadFile_self self seq"
  have "sorted_wrt (\<lambda>a b. fst a \<le> fst b \<and> (fst (snd b) = START \<longrightarrow> fst a + 3 \<le> fst b))
          (frame_scan ?self seq frame)"
    by (rule sorted_wrt_mono_rel [OF _ frame_scan_sorted]) simp
  moreover have "\<forall>a \<in> set (frame_scan ?self seq frame). fst a \<le> int (length seq)"
    using frame_scan_pos_le by blast
  ultimately show ?thesis
    by (simp add: frame_boundaries_def sorted_wrt_append sentinel_def START_def)
qed

lemma cds_step_STOP_plain:
  assumes "\<not> nostart self" "ss \<noteq> 0"
  shows "cds_step self seq strand f ss (pos, STOP, codon) =
     (0, if minlength self \<le> pos + 3 - ss \<and> pos + 3 - ss \<le> maxlength self
         then [CDS ss (if codon = ''XXX'' then ss + 3 * ((pos + 1 - ss) div 3) else pos + 2)
                 (pos + 3 - ss)
                 (py_slice seq (ss - 1) (if codon = ''XXX'' then ss + 3 * ((pos + 1 - ss) div 3) else pos + 2))
                 (strand * f)]
         else [])"
  using assms by (simp add: cds_step.simps START_def STOP_def Let_def algebra_simps)

lemma truncated_stop_bounds:
  "ss + 3 * ((pos + 1 - ss) div 3) \<le> pos + (2::int)"
  "ss \<le> pos \<Longrightarrow> ss \<le> ss + 3 * ((pos + 1 - ss) div (3::int))"
  by presburger+

lemma cds_step_plain_out:
  assumes "\<not> nostart self" "r \<in> set (snd (cds_step self seq strand f ss b))"
  shows "ss \<noteq> 0 \<and> fst (cds_step self seq strand f ss b) = 0 \<and> cds_start r = ss \<and>
         cds_stop r \<le> fst b + 2 \<and> (ss \<le> fst b \<longrightarrow> ss \<le> cds_stop r)"
proof -
  obtain pos ct codon where b: "b = (pos, ct, codon)" by (cases b)
  consider (start) "ct = START" | (stop0) "ct = STOP" "ss = 0" | (stop) "ct = STOP" "ss \<noteq> 0"
    | (other) "ct \<noteq> START" "ct \<noteq> STOP" by blast
  then show ?thesis
  proof cases
    case start
    with assms(2) b show ?thesis by (simp add: cds_step_START)
  next
    case stop0
    with assms(2) b show ?thesis by (simp add: cds_step_STOP_closed)
  next
    case other
    with assms(2) b show ?thesis by (simp add: cds_step_other)
  next
    case stop
    from assms(2) show ?thesis
      unfolding b stop(1) cds_step_STOP_plain [OF assms(1) stop(2)]
      using stop(2) truncated_stop_bounds [of ss pos]
      by (auto split: if_splits)
  qed
qed

lemma cds_step_plain_state:
  assumes "\<not> nostart self"
  shows "fst (cds_step self seq strand f ss b) = ss \<or> fst (cds_step self seq strand f ss b) = 0 \<or>
         (ss = 0 \<and> fst (snd b) = START \<and> fst (cds_step self seq strand f ss b) = fst b)"
proof -
  obtain pos ct codon where b: "b = (pos, ct, codon)" by (cases b)
  consider (start) "ct = START" | (stop0) "ct = STOP" "ss = 0" | (stop) "ct = STOP" "ss \<noteq> 0"
    | (other) "ct \<noteq> START" "ct \<noteq> STOP" by blast
  then show ?thesis
  proof cases
    case start
    with b show ?thesis by (simp add: cds_step_START)
  next
    case stop0
    with b show ?thesis by (simp add: cds_step_STOP_closed)
  next
    case other
    with b show ?thesis by (simp add: cds_step_other)
  next
    case stop
    with b show ?thesis by (simp add: cds_step_STOP_plain [OF assms stop(2)])
  qed
qed

lemma frame_loop_Cons_mem:
  "r \<in> set (frame_loop self seq strand f ss (b # bs)) \<Longrightarrow>
     r \<in> set (snd (cds_step self seq strand f ss b)) \<or>
     r \<in> set (frame_loop self seq strand f (fst (cds_step self seq strand f ss b)) bs)"
  by (cases "cds_step self seq strand f ss b") auto

lemma frame_loop_Cons:
  "frame_loop self seq strand f ss (b # bs) =
     snd (cds_step self seq strand f ss b) @
     frame_loop self seq strand f (fst (cds_step self seq strand f ss b)) bs"
  by (cases "cds_step self seq strand f ss b") simp

lemma frame_loop_starts:
  assumes "\<not> nostart self" "r \<in> set (frame_loop self seq strand f ss bs)"
  shows "(ss \<noteq> 0 \<and> cds_start r = ss) \<or> (\<exists>b \<in> set bs. fst (snd b) = START \<and> cds_start r = fst b)"
  using assms(2)
proof (induction bs arbitrary: ss)
  case Nil
  then show ?case by simp
next
  case (Cons b bs)
  let ?ss' = "fst (cds_step self seq strand f ss b)"
  from Cons.prems show ?case
  proof (rule frame_loop_Cons_mem [THEN disjE])
    assume "r \<in> set (snd (cds_step self seq strand f ss b))"
    then show ?thesis using cds_step_plain_out [OF assms(1)] by blast
  next
    assume "r \<in> set (frame_loop self seq strand f ?ss' bs)"
    then have "(?ss' \<noteq> 0 \<and> cds_start r = ?ss') \<or>
               (\<exists>b \<in> set bs. fst (snd b) = START \<and> cds_start r = fst b)"
      by (rule Cons.IH)
    then show ?thesis
      using cds_step_plain_state [OF assms(1), of seq strand f ss b] by auto
  qed
qed

lemma frame_loop_ordered:
  assumes "\<not> nostart self"
    and "sorted_wrt (\<lambda>a b. fst a \<le> fst b \<and> (fst (snd b) = START \<longrightarrow> fst a + 3 \<le> fst b)) bs"
    and "ss \<noteq> 0 \<longrightarrow> (\<forall>b \<in> set bs. ss \<le> fst b)"
  shows "sorted_wrt (\<lambda>a b. cds_start a < cds_start b \<and> cds_stop a < cds_start b)
           (frame_loop self seq strand f ss bs) \<and>
         (\<forall>r \<in> set (frame_loop self seq strand f ss bs). cds_start r \<le> cds_stop r)"
  using assms(2,3)
proof (induction bs arbitrary: ss)
  case Nil
  then show ?case by simp
next
  case (Cons b bs)
  let ?ss' = "fst (cds_step self seq strand f ss b)"
  let ?out = "snd (cds_step self seq strand f ss b)"
  let ?rest = "frame_loop self seq strand f ?ss' bs"
  from Cons.prems(1) have later: "\<forall>b' \<in> set bs. fst b \<le> fst b' \<and> (fst (snd b') = START \<longrightarrow> fst b + 3 \<le> fst b')"
    and sorted: "sorted_wrt (\<lambda>a b. fst a \<le> fst b \<and> (fst (snd b) = START \<longrightarrow> fst a + 3 \<le> fst b)) bs"
    by simp_all
  have bound: "?ss' \<noteq> 0 \<longrightarrow> (\<forall>b' \<in> set bs. ?ss' \<le> fst b')"
    using cds_step_plain_state [OF assms(1), of seq strand f ss b] Cons.prems(2) later by auto
  note IH = Cons.IH [OF sorted bound]
  have out: "ss \<noteq> 0 \<and> ?ss' = 0 \<and> cds_start r = ss \<and> cds_stop r \<le> fst b + 2 \<and> ss \<le> cds_stop r"
    if "r \<in> set ?out" for r
    using cds_step_plain_out [OF assms(1) that] Cons.prems(2) by simp
  have out_sorted: "sorted_wrt (\<lambda>a b. cds_start a < cds_start b \<and> cds_stop a < cds_start b) ?out"
  proof (cases ?out)
    case Nil
    then show ?thesis by simp
  next
    case (Cons r rs)
    then have "r \<in> set ?out" by simp
    then have "ss \<noteq> 0" using out by blast
    then have "length ?out \<le> 1"
      by (cases b) (auto simp: cds_step.simps Let_def split: if_splits)
    with Cons show ?thesis by simp
  qed
  have cross: "cds_start r < cds_start r' \<and> cds_stop r < cds_start r'"
    if "r \<in> set ?out" "r' \<in> set ?rest" for r r'
  proof -
    from out [OF that(1)] have o: "?ss' = 0" "cds_start r \<le> cds_stop r" "cds_stop r \<le> fst b + 2"
      by simp_all
    from frame_loop_starts [OF assms(1) that(2)] o(1)
    obtain b' where "b' \<in> set bs" "fst (snd b') = START" "cds_start r' = fst b'" by auto
    with later have "fst b + 3 \<le> cds_start r'" by auto
    with o show ?thesis by simp
  qed
  have "sorted_wrt (\<lambda>a b. cds_start a < cds_start b \<and> cds_stop a < cds_start b) (?out @ ?rest)"
    using out_sorted IH cross by (simp add: sorted_wrt_append)
  moreover have "\<forall>r \<in> set (?out @ ?rest). cds_start r \<le> cds_stop r"
    using out IH by auto
  ultimately show ?case by (simp only: frame_loop_Cons)
qed

lemma disjoint_spans:
  "stop_a < start_b \<Longrightarrow> {start_a .. stop_a} \<inter> {start_b .. stop_b} = ({} :: int set)"
  by auto

text \<open>
  C10. With ignore_start off, the records of one frame come in strictly increasing order of
  start, every record has \<open>start \<le> stop\<close>, and the spans \<open>[start, stop]\<close> of two records of
  the frame are disjoint.
\<close>

theorem frame_cds_ordered_disjoint:
  assumes "\<not> nostart self"
  shows "sorted_wrt (\<lambda>a b. cds_start a < cds_start b \<and>
                       {cds_start a .. cds_stop a} \<inter> {cds_start b .. cds_stop b} = {})
           (frame_cds (ReadFile_self self seq) seq strand frame) \<and>
         (\<forall>r \<in> set (frame_cds (ReadFile_self self seq) seq strand frame). cds_start r \<le> cds_stop r)"
proof -
  let ?self = "ReadFile_self self seq"
  have n: "\<not> nostart ?self" using assms by simp
  have i: "initial_start_site ?self \<noteq> 0 \<longrightarrow>
        (\<forall>b \<in> set (frame_boundaries ?self seq frame). initial_start_site ?self \<le> fst b)"
    using assms by (simp add: initial_start_site_def)
  note ord = frame_loop_ordered [OF n frame_boundaries_sorted i, of seq strand "int frame + 1"]
  have "sorted_wrt (\<lambda>a b. cds_start a < cds_start b \<and>
                       {cds_start a .. cds_stop a} \<inter> {cds_start b .. cds_stop b} = {})
          (frame_cds ?self seq strand frame)"
    unfolding frame_cds_def
    by (rule sorted_wrt_mono_rel [OF _ ord [THEN conjunct1]]) (simp add: disjoint_spans)
  with ord show ?thesis by (simp add: frame_cds_def)
qed

lemma frame_cds_two_orfs:
  "frame_cds (ReadFile_self standard ''ATGTAAATGTAG'') ''ATGTAAATGTAG'' 1 0
     = [CDS 1 6 6 ''ATGTAA'' 1, CDS 7 12 6 ''ATGTAG'' 1]"
  by code_simp

theorem frame_cds_ordered_disjoint_witness:
  "\<not> nostart standard \<and>
   frame_cds (ReadFile_self standard ''ATGTAAATGTAG'') ''ATGTAAATGTAG'' 1 0
     = [CDS 1 6 6 ''ATGTAA'' 1, CDS 7 12 6 ''ATGTAG'' 1] \<and>
   (1::int) < 7 \<and> {1 .. 6} \<inter> {7 .. 12} = ({} :: int set) \<and> (1::int) \<le> 6 \<and> (7::int) \<le> 12"
proof -
  have h: "\<not> nostart standard" by (simp add: standard_def)
  show ?thesis
    using h frame_cds_ordered_disjoint [OF h, of "''ATGTAAATGTAG''" 1 0]
    by (simp add: frame_cds_two_orfs)
qed

end
